theory Spec2Isabelle
  imports Main
begin

section \<open>Data model (types/note.types.ts)\<close>

text \<open>
  The interfaces \<open>Note\<close>, \<open>NoteUpdate\<close> and \<open>NoteList\<close> (its fields carry the
  prefix \<open>nl_\<close>, those of \<open>NoteUpdate\<close> the prefix \<open>upd_\<close>). The field \<open>id\<close> of the source is
  \<open>note_id\<close> here (\<open>id\<close> is the identity function of HOL). An optional field of the source
  (\<open>title?: string\<close>) is an \<open>option\<close>: \<open>None\<close> is the absent property.
\<close>

record Note =
  note_id :: int
  subject_id :: int
  title :: string
  content_json :: string

record NoteUpdate =
  upd_title :: "string option"
  upd_content_json :: "string option"

record NoteList =
  nl_notes :: "Note list"
  nl_total :: int
  nl_subject_id :: "int option"

section \<open>Optimistic cache (hooks/useNotes.ts, updateNoteMutation)\<close>

text \<open>
  The query cache entry under \<open>queryKey\<close> is \<open>NoteList option\<close>: \<open>None\<close> is \<open>undefined\<close>
  (nothing fetched yet).

  \<open>spread n d\<close> is the object spread \<open>{ ...note, ...data }\<close>: the properties present in
  \<open>data\<close> overwrite those of \<open>note\<close>.
\<close>

definition spread :: "Note \<Rightarrow> NoteUpdate \<Rightarrow> Note" where
  "spread n d =
     n\<lparr>title := (case upd_title d of None \<Rightarrow> title n | Some t \<Rightarrow> t),
       content_json := (case upd_content_json d of None \<Rightarrow> content_json n | Some c \<Rightarrow> c)\<rparr>"

text \<open>
  The updater passed to \<open>setQueryData\<close> in \<open>onMutate\<close>:
  \<^verbatim>\<open>(old) => { if (!old) return old
              return { ...old, notes: old.notes.map(note => note.id === id ? {...note, ...data} : note) } }\<close>
\<close>

definition updater :: "int \<Rightarrow> NoteUpdate \<Rightarrow> NoteList option \<Rightarrow> NoteList option" where
  "updater i d old =
     (case old of
        None \<Rightarrow> None
      | Some l \<Rightarrow> Some (l\<lparr>nl_notes := map (\<lambda>n. if note_id n = i then spread n d else n) (nl_notes l)\<rparr>))"

text \<open>
  \<open>onMutate\<close> snapshots the cache (\<open>previousNotes = getQueryData(queryKey)\<close>), applies the
  updater and returns the context \<open>{ previousNotes }\<close>. The result is the pair of the context
  and the new cache.
\<close>

definition onMutate :: "int \<Rightarrow> NoteUpdate \<Rightarrow> NoteList option \<Rightarrow> NoteList option \<times> NoteList option" where
  "onMutate i d cache = (let previousNotes = cache in (previousNotes, updater i d cache))"

text \<open>
  \<open>onError\<close>: \<^verbatim>\<open>if (context?.previousNotes) setQueryData(queryKey, context.previousNotes)\<close>.
  The context is absent (\<open>None\<close>) when \<open>onMutate\<close> never returned one; a snapshot that is
  \<open>undefined\<close> is falsy, so nothing is written back then.
\<close>

definition onError :: "NoteList option option \<Rightarrow> NoteList option \<Rightarrow> NoteList option" where
  "onError context cache =
     (case context of
        None \<Rightarrow> cache
      | Some previousNotes \<Rightarrow>
          (case previousNotes of None \<Rightarrow> cache | Some l \<Rightarrow> Some l))"

text \<open>The cached entry for a note id: the first entry of the list with that id.\<close>

definition entry :: "int \<Rightarrow> NoteList option \<Rightarrow> Note option" where
  "entry i cache = (case cache of None \<Rightarrow> None | Some l \<Rightarrow> find (\<lambda>n. note_id n = i) (nl_notes l))"

section \<open>The note editor (the NoteEditor component with manualSave and the loading guard)\<close>

text \<open>
  The component's state: its props, its \<open>useState\<close> cells and \<open>useRef\<close> cells, the
  editor, and the part of the JavaScript runtime the component acts on: the clock, the table
  of pending timeouts, and the \<open>onUpdate\<close> promises that have not settled yet. \<open>calls\<close>
  logs every call of the \<open>onUpdate\<close> prop (the persistence call), as the pair of the note
  id and the \<open>content_json\<close> it was given.

  The editor is \<open>None\<close> while \<open>useEditor\<close> has produced none; otherwise it holds the
  serialized document, that is the value of \<^verbatim>\<open>JSON.stringify(editor.getJSON())\<close>.

  Times are in milliseconds. A timeout handle is a positive number, so the source's test
  \<^verbatim>\<open>if (saveTimeoutRef.current)\<close> is the test for \<open>Some\<close>. The callbacks read the props
  of the latest render: \<open>note.id\<close> in \<open>autoSave\<close> and \<open>manualSave\<close> is the id of the note
  the component was last rendered with, while the closure of a timeout keeps the id it was
  set with.
\<close>

datatype error = SyntaxError

datatype action =
    SaveTimer int string  \<comment> \<open>the closure of \<open>setTimeout\<close> in \<open>autoSave\<close>: \<open>note.id\<close> and \<open>content\<close> as captured\<close>
  | GuardTimer            \<comment> \<open>the closure of \<open>setTimeout\<close> in the note effect\<close>

record timer =
  handle :: nat
  due :: nat
  act :: action

record session =
  note_prop :: Note
  editor :: "string option"
  isSaving :: bool
  lastSaved :: "nat option"
  hasUnsavedChanges :: bool
  saveTimeoutRef :: "nat option"
  isLoadingNoteRef :: bool
  now :: nat
  nextHandle :: nat
  timers :: "timer list"
  inflight :: "(int \<times> string) list"
  calls :: "(int \<times> string) list"

subsection \<open>Timeouts\<close>

text \<open>
  \<open>setTimeout\<close> registers a callback due after the delay (milliseconds) and returns a fresh
  handle; \<open>clearTimeout\<close> drops the timeout of that handle, if it is still pending.
\<close>

definition setTimeout :: "action \<Rightarrow> nat \<Rightarrow> session \<Rightarrow> nat \<times> session" where
  "setTimeout a delay s =
     (nextHandle s,
      s\<lparr>timers := timers s @ [\<lparr>handle = nextHandle s, due = now s + delay, act = a\<rparr>],
        nextHandle := Suc (nextHandle s)\<rparr>)"

definition clearTimeout :: "nat \<Rightarrow> session \<Rightarrow> session" where
  "clearTimeout h s = s\<lparr>timers := filter (\<lambda>t. handle t \<noteq> h) (timers s)\<rparr>"

subsection \<open>autoSave and the editor's onUpdate\<close>

text \<open>
  \<open>autoSave(content)\<close>: marks unsaved changes, clears the timeout held in \<open>saveTimeoutRef\<close>
  and sets a new one, 2000 ms, whose closure holds \<open>note.id\<close> and \<open>content\<close>.
\<close>

definition autoSave :: "string \<Rightarrow> session \<Rightarrow> session" where
  "autoSave content s =
     (let s1 = s\<lparr>hasUnsavedChanges := True\<rparr>;
          s2 = (case saveTimeoutRef s1 of None \<Rightarrow> s1 | Some h \<Rightarrow> clearTimeout h s1);
          (h, s3) = setTimeout (SaveTimer (note_id (note_prop s2)) content) 2000 s2
      in s3\<lparr>saveTimeoutRef := Some h\<rparr>)"

text \<open>
  The \<open>onUpdate\<close> option of \<open>useEditor\<close>: returns at once while \<open>isLoadingNoteRef\<close> is
  set, and otherwise hands the serialized document to \<open>autoSave\<close>.
\<close>

definition editorOnUpdate :: "session \<Rightarrow> session" where
  "editorOnUpdate s =
     (if isLoadingNoteRef s then s
      else (case editor s of None \<Rightarrow> s | Some jsonString \<Rightarrow> autoSave jsonString s))"

text \<open>
  A content change made by the user: the editor holds the new document and emits its update
  notification. \<open>editor.commands.setContent\<close> installs a document as well; whether it emits
  the notification depends on the editor library's version, so it is the parameter
  \<open>emitUpdate\<close>.
\<close>

definition userEdit :: "string \<Rightarrow> session \<Rightarrow> session" where
  "userEdit c s = (case editor s of None \<Rightarrow> s | Some _ \<Rightarrow> editorOnUpdate (s\<lparr>editor := Some c\<rparr>))"

definition setContent :: "bool \<Rightarrow> string \<Rightarrow> session \<Rightarrow> session" where
  "setContent emitUpdate c s =
     (let s1 = s\<lparr>editor := Some c\<rparr> in if emitUpdate then editorOnUpdate s1 else s1)"

subsection \<open>Rendering, the note effect, mounting and unmounting\<close>

text \<open>
  \<open>JSON.parse\<close> and the editor's reading of the parsed value are not code of the component:
  they are the parameter \<open>parse\<close>. \<open>parse j = None\<close> when \<open>JSON.parse(j)\<close> throws;
  \<open>parse j = Some c\<close> when it returns, \<open>c\<close> being the serialization of the document the
  editor holds once it is given the parsed value (\<open>setContent\<close> itself is taken not to
  throw). \<open>emptyContent\<close> is the serialization of the document the editor holds after
  \<^verbatim>\<open>setContent("")\<close>: one empty paragraph.
\<close>

definition emptyContent :: string where
  \<open>emptyContent = ''{"type":"doc","content":[{"type":"paragraph"}]}''\<close>

text \<open>
  Every render evaluates the options of \<open>useEditor\<close>, among them
  \<^verbatim>\<open>content: note.content_json ? JSON.parse(note.content_json) : ""\<close>,
  outside any \<open>try\<close>: the render throws when a non-empty \<open>content_json\<close> does not parse.
\<close>

definition render :: "(string \<Rightarrow> string option) \<Rightarrow> Note \<Rightarrow> error + string" where
  "render parse n =
     (if content_json n \<noteq> []
      then (case parse (content_json n) of None \<Rightarrow> Inl SyntaxError | Some c \<Rightarrow> Inr c)
      else Inr emptyContent)"

text \<open>
  The effect with the dependencies \<open>[note.id, note.content_json, editor]\<close>: sets the guard,
  resets the flags, loads the note's document into the editor when it differs from the
  editor's (an empty document when it does not parse), and sets the 100 ms timeout that
  clears the guard.
\<close>

definition noteEffect :: "(string \<Rightarrow> string option) \<Rightarrow> bool \<Rightarrow> session \<Rightarrow> session" where
  "noteEffect parse emitUpdate s =
     (let s1 = s\<lparr>isLoadingNoteRef := True\<rparr>;
          s2 = s1\<lparr>hasUnsavedChanges := False, lastSaved := None\<rparr>;
          s3 = (case editor s2 of
                  None \<Rightarrow> s2
                | Some currentContent \<Rightarrow>
                    (let newContent = content_json (note_prop s2) in
                     if newContent = [] then s2
                     else if currentContent \<noteq> newContent then
                       (case parse newContent of
                          Some parsedContent \<Rightarrow> setContent emitUpdate parsedContent s2
                        | None \<Rightarrow> setContent emitUpdate emptyContent s2)
                     else s2))
      in snd (setTimeout GuardTimer 100 s3))"

text \<open>The values of the first render: the initial values of the state and ref cells.\<close>

definition initial :: "Note \<Rightarrow> session" where
  "initial n =
     \<lparr>note_prop = n, editor = None, isSaving = False, lastSaved = None,
      hasUnsavedChanges = False, saveTimeoutRef = None, isLoadingNoteRef = False,
      now = 0, nextHandle = 1, timers = [], inflight = [], calls = []\<rparr>"

text \<open>
  Mounting renders (which may throw), creates the editor with the rendered content and runs
  the effect. A later render with a new \<open>note\<close> prop runs the effect again when the id or
  the \<open>content_json\<close> differ from those of the previous render. Unmounting runs the cleanup
  that clears the timeout held in \<open>saveTimeoutRef\<close>.
\<close>

definition mount :: "(string \<Rightarrow> string option) \<Rightarrow> bool \<Rightarrow> Note \<Rightarrow> error + session" where
  "mount parse emitUpdate n =
     (case render parse n of
        Inl e \<Rightarrow> Inl e
      | Inr c \<Rightarrow> Inr (noteEffect parse emitUpdate ((initial n)\<lparr>editor := Some c\<rparr>)))"

definition rerender :: "(string \<Rightarrow> string option) \<Rightarrow> bool \<Rightarrow> Note \<Rightarrow> session \<Rightarrow> error + session" where
  "rerender parse emitUpdate n s =
     (case render parse n of
        Inl e \<Rightarrow> Inl e
      | Inr _ \<Rightarrow>
          (let s1 = s\<lparr>note_prop := n\<rparr> in
           if note_id n = note_id (note_prop s) \<and> content_json n = content_json (note_prop s)
           then Inr s1
           else Inr (noteEffect parse emitUpdate s1)))"

definition unmount :: "session \<Rightarrow> session" where
  "unmount s = (case saveTimeoutRef s of None \<Rightarrow> s | Some h \<Rightarrow> clearTimeout h s)"

subsection \<open>Saving\<close>

text \<open>
  Both the timeout's body and \<open>manualSave\<close> set \<open>isSaving\<close>, call \<open>onUpdate\<close> and await it;
  \<open>issue\<close> is that part up to the \<open>await\<close>. \<open>settle i ok\<close> is the rest, run when the
  \<open>i\<close>-th pending promise resolves (\<open>ok\<close>) or rejects: on success \<open>lastSaved\<close> is set to
  the current time and the unsaved-changes flag is cleared; the \<open>catch\<close> only logs; the
  \<open>finally\<close> clears \<open>isSaving\<close>.
\<close>

definition issue :: "int \<Rightarrow> string \<Rightarrow> session \<Rightarrow> session" where
  "issue nid content s =
     s\<lparr>isSaving := True, inflight := inflight s @ [(nid, content)], calls := calls s @ [(nid, content)]\<rparr>"

definition settle :: "nat \<Rightarrow> bool \<Rightarrow> session \<Rightarrow> session" where
  "settle i ok s =
     (if i < length (inflight s) then
        (let s1 = s\<lparr>inflight := take i (inflight s) @ drop (Suc i) (inflight s)\<rparr>;
             s2 = (if ok then s1\<lparr>lastSaved := Some (now s1), hasUnsavedChanges := False\<rparr> else s1)
         in s2\<lparr>isSaving := False\<rparr>)
      else s)"

definition manualSave :: "session \<Rightarrow> session" where
  "manualSave s =
     (case editor s of
        None \<Rightarrow> s
      | Some jsonString \<Rightarrow>
          if \<not> hasUnsavedChanges s then s else issue (note_id (note_prop s)) jsonString s)"

subsection \<open>The passing of time\<close>

text \<open>
  A timeout that comes due runs its callback. Neither callback of the component sets or
  clears a timeout or reads the clock, so letting \<open>d\<close> milliseconds pass runs the callbacks
  of the timeouts due by then, in the order of their due times (timeouts due at the same
  time run in the order they were set: the sort is stable), and leaves the others pending.
\<close>

fun fire :: "action \<Rightarrow> session \<Rightarrow> session" where
  "fire (SaveTimer nid content) s = issue nid content s"
| "fire GuardTimer s = s\<lparr>isLoadingNoteRef := False\<rparr>"

definition dueTimers :: "nat \<Rightarrow> timer list \<Rightarrow> timer list" where
  "dueTimers T ts = sort_key due (filter (\<lambda>t. due t \<le> T) ts)"

definition advance :: "nat \<Rightarrow> session \<Rightarrow> session" where
  "advance d s =
     (let T = now s + d;
          s1 = s\<lparr>timers := filter (\<lambda>t. T < due t) (timers s)\<rparr>
      in (fold (\<lambda>t. fire (act t)) (dueTimers T (timers s)) s1)\<lparr>now := T\<rparr>)"

subsection \<open>Runs of the component\<close>

datatype event =
    Edit string        \<comment> \<open>the user changes the document\<close>
  | SetNote Note       \<comment> \<open>the parent renders the component with this note\<close>
  | ManualSave         \<comment> \<open>the Save button or Ctrl+S\<close>
  | Settle nat bool    \<comment> \<open>a pending \<open>onUpdate\<close> promise resolves or rejects\<close>
  | Advance nat        \<comment> \<open>time passes\<close>

fun step :: "(string \<Rightarrow> string option) \<Rightarrow> bool \<Rightarrow> event \<Rightarrow> session \<Rightarrow> error + session" where
  "step parse emitUpdate (Edit c) s = Inr (userEdit c s)"
| "step parse emitUpdate (SetNote n) s = rerender parse emitUpdate n s"
| "step parse emitUpdate ManualSave s = Inr (manualSave s)"
| "step parse emitUpdate (Settle i ok) s = Inr (settle i ok s)"
| "step parse emitUpdate (Advance d) s = Inr (advance d s)"

fun run :: "(string \<Rightarrow> string option) \<Rightarrow> bool \<Rightarrow> event list \<Rightarrow> session \<Rightarrow> error + session" where
  "run parse emitUpdate [] s = Inr s"
| "run parse emitUpdate (e # es) s =
     (case step parse emitUpdate e s of Inl err \<Rightarrow> Inl err | Inr s' \<Rightarrow> run parse emitUpdate es s')"

text \<open>The pending timeouts that are save timeouts, and what firing a list of timeouts persists.\<close>

definition isSave :: "timer \<Rightarrow> bool" where
  "isSave t = (case act t of SaveTimer _ _ \<Rightarrow> True | GuardTimer \<Rightarrow> False)"

definition saveTimers :: "session \<Rightarrow> timer list" where
  "saveTimers s = filter isSave (timers s)"

fun payload :: "action \<Rightarrow> (int \<times> string) list" where
  "payload (SaveTimer nid content) = [(nid, content)]"
| "payload GuardTimer = []"

definition payloads :: "timer list \<Rightarrow> (int \<times> string) list" where
  "payloads ts = concat (map (\<lambda>t. payload (act t)) ts)"

text \<open>
  The timer table is in order when handles are not reused and the only save timeout that can
  be pending is the one whose handle \<open>saveTimeoutRef\<close> holds.
\<close>

definition timersOk :: "session \<Rightarrow> bool" where
  "timersOk s \<longleftrightarrow>
     distinct (map handle (timers s))
     \<and> (\<forall>t \<in> set (timers s). handle t < nextHandle s)
     \<and> (\<forall>t \<in> set (timers s). isSave t \<longrightarrow> saveTimeoutRef s = Some (handle t))"

definition guardPending :: "session \<Rightarrow> bool" where
  "guardPending s \<longleftrightarrow> (\<exists>t \<in> set (timers s). act t = GuardTimer)"

text \<open>
  A mounted component and the events that follow; a burst of content changes, each given
  with the time passed since the previous event; the events that are neither a content
  change nor a manual save.
\<close>

definition mountAndRun ::
  "(string \<Rightarrow> string option) \<Rightarrow> bool \<Rightarrow> Note \<Rightarrow> event list \<Rightarrow> error + session" where
  "mountAndRun parse emitUpdate n es =
     (case mount parse emitUpdate n of Inl err \<Rightarrow> Inl err | Inr s \<Rightarrow> run parse emitUpdate es s)"

fun burst :: "(nat \<times> string) list \<Rightarrow> session \<Rightarrow> session" where
  "burst [] s = s"
| "burst ((gap, c) # r) s = burst r (userEdit c (advance gap s))"

fun quiet :: "event \<Rightarrow> bool" where
  "quiet (Edit c) = False"
| "quiet ManualSave = False"
| "quiet (SetNote n) = True"
| "quiet (Settle i ok) = True"
| "quiet (Advance d) = True"


text \<open>The persistence calls of a run, when it did not throw.\<close>

definition callsOf :: "error + session \<Rightarrow> error + (int \<times> string) list" where
  "callsOf r = (case r of Inl err \<Rightarrow> Inl err | Inr s \<Rightarrow> Inr (calls s))"

text \<open>
  Two notions used in the proofs: a session whose debounce timeout is set for the document the
  editor holds, with the calls issued so far; and a session with the editor's document left
  out.
\<close>

definition armed :: "session \<Rightarrow> (int \<times> string) list \<Rightarrow> int \<Rightarrow> string \<Rightarrow> bool" where
  "armed s k nid c \<longleftrightarrow>
     timersOk s \<and> \<not> isLoadingNoteRef s \<and> editor s = Some c \<and> calls s = k
     \<and> note_id (note_prop s) = nid
     \<and> (\<exists>h. saveTimers s = [\<lparr>handle = h, due = now s + 2000, act = SaveTimer nid c\<rparr>])"

definition forget :: "session \<Rightarrow> session" where
  "forget s = s\<lparr>editor := None\<rparr>"

section \<open>Properties of the optimistic cache\<close>

lemma updater_None: "updater i d None = None"
  by (simp add: updater_def)

lemma map_no_match:
  "\<forall>n \<in> set xs. note_id n \<noteq> i \<Longrightarrow> map (\<lambda>n. if note_id n = i then spread n d else n) xs = xs"
  by (induction xs) auto

lemma updater_no_match:
  "\<forall>n \<in> set (nl_notes l). note_id n \<noteq> i \<Longrightarrow> updater i d (Some l) = Some l"
  by (simp add: updater_def map_no_match)

text \<open>
  Claim C4. For every cache state and every optimistic mutation, the snapshot taken by
  \<open>onMutate\<close>, handed to \<open>onError\<close> after the mutation, restores the cache exactly: snapshot,
  mutate, fail, restore gives the snapshot back, and so the entry for the note id is the
  one from before the mutation.
\<close>

theorem rollback_restores_snapshot:
  "onError (Some (fst (onMutate i d cache))) (snd (onMutate i d cache)) = cache
   \<and> entry i (onError (Some (fst (onMutate i d cache))) (snd (onMutate i d cache))) = entry i cache"
proof -
  have "onError (Some (fst (onMutate i d cache))) (snd (onMutate i d cache)) = cache"
    by (cases cache) (simp_all add: onError_def onMutate_def updater_def)
  then show ?thesis by simp
qed

text \<open>
  Claim C9. The mutation leaves every cached entry whose id differs from the note id as it
  was (the list keeps its length and order, and the other fields of the cache are kept);
  with no data in the cache, or no entry of that id, the cache after the mutation is the
  cache before it.
\<close>

theorem mutate_frame:
  "(cache = Some l \<longrightarrow>
      (\<exists>l'. snd (onMutate i d cache) = Some l'
         \<and> length (nl_notes l') = length (nl_notes l)
         \<and> nl_total l' = nl_total l \<and> nl_subject_id l' = nl_subject_id l
         \<and> (\<forall>k < length (nl_notes l). note_id (nl_notes l ! k) \<noteq> i \<longrightarrow> nl_notes l' ! k = nl_notes l ! k)))
   \<and> (cache = None \<or> (\<forall>l. cache = Some l \<longrightarrow> (\<forall>n \<in> set (nl_notes l). note_id n \<noteq> i))
        \<longrightarrow> snd (onMutate i d cache) = cache)"
proof (intro conjI impI)
  assume c: "cache = Some l"
  show "\<exists>l'. snd (onMutate i d cache) = Some l'
         \<and> length (nl_notes l') = length (nl_notes l)
         \<and> nl_total l' = nl_total l \<and> nl_subject_id l' = nl_subject_id l
         \<and> (\<forall>k < length (nl_notes l). note_id (nl_notes l ! k) \<noteq> i \<longrightarrow> nl_notes l' ! k = nl_notes l ! k)"
    using c by (simp add: onMutate_def updater_def)
next
  assume h: "cache = None \<or> (\<forall>l. cache = Some l \<longrightarrow> (\<forall>n \<in> set (nl_notes l). note_id n \<noteq> i))"
  show "snd (onMutate i d cache) = cache"
  proof (cases cache)
    case None
    then show ?thesis by (simp add: onMutate_def updater_None)
  next
    case (Some l)
    with h have "\<forall>n \<in> set (nl_notes l). note_id n \<noteq> i" by simp
    then show ?thesis using Some by (simp add: onMutate_def updater_no_match)
  qed
qed

theorem mutate_frame_witness:
  "(let n1 = \<lparr>note_id = 1, subject_id = 7, title = ''a'', content_json = ''{}''\<rparr>;
        n5 = \<lparr>note_id = 5, subject_id = 7, title = ''b'', content_json = ''{}''\<rparr>;
        l = \<lparr>nl_notes = [n1, n5], nl_total = 2, nl_subject_id = Some 7\<rparr>;
        d = \<lparr>upd_title = Some ''X'', upd_content_json = None\<rparr>
    in snd (onMutate 5 d (Some l)) = Some (l\<lparr>nl_notes := [n1, n5\<lparr>title := ''X''\<rparr>]\<rparr>)
       \<and> snd (onMutate 9 d (Some l)) = Some l
       \<and> snd (onMutate 5 d None) = None)"
proof -
  let ?n1 = "\<lparr>note_id = 1, subject_id = 7, title = ''a'', content_json = ''{}''\<rparr>"
  let ?n5 = "\<lparr>note_id = 5, subject_id = 7, title = ''b'', content_json = ''{}''\<rparr>"
  let ?l = "\<lparr>nl_notes = [?n1, ?n5], nl_total = 2, nl_subject_id = Some 7\<rparr>"
  let ?d = "\<lparr>upd_title = Some ''X'', upd_content_json = None\<rparr>"
  have a: "snd (onMutate 5 ?d (Some ?l)) = Some (?l\<lparr>nl_notes := [?n1, ?n5\<lparr>title := ''X''\<rparr>]\<rparr>)"
    by (simp add: onMutate_def updater_def spread_def)
  have b: "snd (onMutate 9 ?d (Some ?l)) = Some ?l"
    using mutate_frame [of "Some ?l" ?l 9 ?d] by simp
  have c: "snd (onMutate 5 ?d None) = None"
    using mutate_frame [of None ?l 5 ?d] by simp
  show ?thesis using a b c by (simp add: Let_def)
qed

section \<open>Timeouts and the passing of time\<close>

lemma fold_fire_frame:
  "timers (fold (\<lambda>t. fire (act t)) ts s) = timers s
   \<and> editor (fold (\<lambda>t. fire (act t)) ts s) = editor s
   \<and> note_prop (fold (\<lambda>t. fire (act t)) ts s) = note_prop s
   \<and> hasUnsavedChanges (fold (\<lambda>t. fire (act t)) ts s) = hasUnsavedChanges s
   \<and> lastSaved (fold (\<lambda>t. fire (act t)) ts s) = lastSaved s
   \<and> saveTimeoutRef (fold (\<lambda>t. fire (act t)) ts s) = saveTimeoutRef s
   \<and> nextHandle (fold (\<lambda>t. fire (act t)) ts s) = nextHandle s
   \<and> now (fold (\<lambda>t. fire (act t)) ts s) = now s"
proof (induction ts arbitrary: s)
  case Nil
  show ?case by simp
next
  case (Cons t ts)
  show ?case by (cases "act t") (simp_all add: Cons.IH issue_def)
qed

lemma fold_fire_calls:
  "calls (fold (\<lambda>t. fire (act t)) ts s) = calls s @ payloads ts"
proof (induction ts arbitrary: s)
  case Nil
  show ?case by (simp add: payloads_def)
next
  case (Cons t ts)
  show ?case by (cases "act t") (simp_all add: Cons.IH issue_def payloads_def)
qed

lemma fold_fire_guard:
  "isLoadingNoteRef (fold (\<lambda>t. fire (act t)) ts s)
     = (isLoadingNoteRef s \<and> (\<forall>t \<in> set ts. act t \<noteq> GuardTimer))"
proof (induction ts arbitrary: s)
  case Nil
  show ?case by simp
next
  case (Cons t ts)
  show ?case by (cases "act t") (auto simp add: Cons.IH issue_def)
qed

lemma advance_timers: "timers (advance d s) = filter (\<lambda>t. now s + d < due t) (timers s)"
  by (simp add: advance_def Let_def fold_fire_frame)

lemma advance_calls: "calls (advance d s) = calls s @ payloads (dueTimers (now s + d) (timers s))"
  by (simp add: advance_def Let_def fold_fire_calls)

lemma advance_frame:
  "editor (advance d s) = editor s
   \<and> note_prop (advance d s) = note_prop s
   \<and> hasUnsavedChanges (advance d s) = hasUnsavedChanges s
   \<and> lastSaved (advance d s) = lastSaved s
   \<and> saveTimeoutRef (advance d s) = saveTimeoutRef s
   \<and> nextHandle (advance d s) = nextHandle s
   \<and> now (advance d s) = now s + d"
  by (simp add: advance_def Let_def fold_fire_frame)

lemma advance_guard:
  "isLoadingNoteRef (advance d s)
     = (isLoadingNoteRef s \<and> (\<forall>t \<in> set (timers s). due t \<le> now s + d \<longrightarrow> act t \<noteq> GuardTimer))"
  by (auto simp add: advance_def Let_def fold_fire_guard dueTimers_def)

lemma payloads_append: "payloads (xs @ ys) = payloads xs @ payloads ys"
  by (simp add: payloads_def)

lemma payloads_filter_isSave: "payloads (filter isSave ts) = payloads ts"
  by (induction ts) (auto simp add: payloads_def isSave_def split: action.splits)

lemma payloads_no_save: "filter isSave ts = [] \<Longrightarrow> payloads ts = []"
  using payloads_filter_isSave [of ts] by (simp add: payloads_def)

lemma isSave_dueTimers: "filter isSave (dueTimers T ts) = dueTimers T (filter isSave ts)"
  by (simp add: dueTimers_def filter_sort conj_commute)

lemma timersOk_save_le1:
  assumes "timersOk s"
  shows "length (saveTimers s) \<le> 1"
proof -
  have d: "distinct (map handle (saveTimers s))"
    using assms by (simp add: timersOk_def saveTimers_def distinct_map_filter)
  have same: "\<forall>t \<in> set (saveTimers s). Some (handle t) = saveTimeoutRef s"
    using assms by (auto simp add: timersOk_def saveTimers_def)
  show ?thesis
  proof (cases "saveTimers s")
    case Nil
    then show ?thesis by simp
  next
    case (Cons a r)
    show ?thesis
    proof (cases r)
      case Nil
      with Cons show ?thesis by simp
    next
      case (Cons b r')
      with \<open>saveTimers s = a # r\<close> same
      have "Some (handle a) = saveTimeoutRef s" "Some (handle b) = saveTimeoutRef s" by simp_all
      then have "handle a = handle b" by (metis option.inject)
      with Cons \<open>saveTimers s = a # r\<close> d show ?thesis by simp
    qed
  qed
qed

section \<open>The timer table stays in order\<close>

lemma timersOk_advance: "timersOk s \<Longrightarrow> timersOk (advance d s)"
  by (simp add: timersOk_def advance_timers advance_frame distinct_map_filter)

lemma timersOk_settle: "timersOk s \<Longrightarrow> timersOk (settle i ok s)"
  by (simp add: timersOk_def settle_def Let_def)

lemma timersOk_manualSave: "timersOk s \<Longrightarrow> timersOk (manualSave s)"
  by (simp add: timersOk_def manualSave_def issue_def split: option.splits)

lemma autoSave_timers:
  "timers (autoSave c s) =
     (case saveTimeoutRef s of None \<Rightarrow> timers s | Some h \<Rightarrow> filter (\<lambda>t. handle t \<noteq> h) (timers s))
     @ [\<lparr>handle = nextHandle s, due = now s + 2000, act = SaveTimer (note_id (note_prop s)) c\<rparr>]"
  by (simp add: autoSave_def setTimeout_def clearTimeout_def Let_def split: option.splits)

lemma autoSave_frame:
  "editor (autoSave c s) = editor s
   \<and> note_prop (autoSave c s) = note_prop s
   \<and> hasUnsavedChanges (autoSave c s)
   \<and> lastSaved (autoSave c s) = lastSaved s
   \<and> isSaving (autoSave c s) = isSaving s
   \<and> saveTimeoutRef (autoSave c s) = Some (nextHandle s)
   \<and> nextHandle (autoSave c s) = Suc (nextHandle s)
   \<and> isLoadingNoteRef (autoSave c s) = isLoadingNoteRef s
   \<and> now (autoSave c s) = now s
   \<and> calls (autoSave c s) = calls s
   \<and> inflight (autoSave c s) = inflight s"
  by (simp add: autoSave_def setTimeout_def clearTimeout_def Let_def split: option.splits)

lemma timersOk_autoSave:
  assumes "timersOk s"
  shows "timersOk (autoSave c s)"
proof (cases "saveTimeoutRef s")
  case None
  with assms have "\<forall>t \<in> set (timers s). \<not> isSave t" by (simp add: timersOk_def)
  with assms None show ?thesis
    by (auto simp add: timersOk_def autoSave_timers autoSave_frame)
next
  case (Some h)
  with assms have "\<forall>t \<in> set (timers s). isSave t \<longrightarrow> handle t = h" by (simp add: timersOk_def)
  with assms Some show ?thesis
    by (auto simp add: timersOk_def autoSave_timers autoSave_frame distinct_map_filter)
qed

lemma autoSave_saveTimers:
  assumes "timersOk s"
  shows "saveTimers (autoSave c s)
           = [\<lparr>handle = nextHandle s, due = now s + 2000, act = SaveTimer (note_id (note_prop s)) c\<rparr>]"
proof (cases "saveTimeoutRef s")
  case None
  with assms have "\<forall>t \<in> set (timers s). \<not> isSave t" by (simp add: timersOk_def)
  then have "filter isSave (timers s) = []" by (simp add: filter_empty_conv)
  with None show ?thesis by (simp add: saveTimers_def autoSave_timers isSave_def)
next
  case (Some h)
  with assms have "\<forall>t \<in> set (timers s). isSave t \<longrightarrow> handle t = h" by (simp add: timersOk_def)
  then have "filter isSave (filter (\<lambda>t. handle t \<noteq> h) (timers s)) = []"
    by (auto simp add: filter_empty_conv)
  with Some show ?thesis by (simp add: saveTimers_def autoSave_timers isSave_def)
qed

lemma timersOk_editorOnUpdate: "timersOk s \<Longrightarrow> timersOk (editorOnUpdate s)"
  by (simp add: editorOnUpdate_def timersOk_autoSave split: option.splits)

lemma timersOk_editor_update: "timersOk (s\<lparr>editor := e\<rparr>) = timersOk s"
  by (simp add: timersOk_def)

lemma timersOk_userEdit: "timersOk s \<Longrightarrow> timersOk (userEdit c s)"
  by (simp add: userEdit_def timersOk_editorOnUpdate timersOk_editor_update split: option.splits)

lemma editorOnUpdate_guarded: "isLoadingNoteRef s \<Longrightarrow> editorOnUpdate s = s"
  by (simp add: editorOnUpdate_def)

lemma setContent_guarded: "isLoadingNoteRef s \<Longrightarrow> setContent e c s = s\<lparr>editor := Some c\<rparr>"
  by (simp add: setContent_def editorOnUpdate_def Let_def)

text \<open>The effect changes nothing but the flags, the editor's document and the guard timeout.\<close>

lemma noteEffect_eq:
  "noteEffect parse e s =
     s\<lparr>isLoadingNoteRef := True, hasUnsavedChanges := False, lastSaved := None,
       editor := editor (noteEffect parse e s),
       timers := timers s @ [\<lparr>handle = nextHandle s, due = now s + 100, act = GuardTimer\<rparr>],
       nextHandle := Suc (nextHandle s)\<rparr>"
  by (simp add: noteEffect_def Let_def setTimeout_def setContent_guarded split: option.splits)

lemma timersOk_noteEffect:
  assumes "timersOk s"
  shows "timersOk (noteEffect parse e s)"
proof -
  have "timersOk (s\<lparr>isLoadingNoteRef := True, hasUnsavedChanges := False, lastSaved := None,
       editor := editor (noteEffect parse e s),
       timers := timers s @ [\<lparr>handle = nextHandle s, due = now s + 100, act = GuardTimer\<rparr>],
       nextHandle := Suc (nextHandle s)\<rparr>)"
    using assms by (auto simp add: timersOk_def isSave_def)
  then show ?thesis using noteEffect_eq [of parse e s] by simp
qed

lemma timersOk_rerender: "timersOk s \<Longrightarrow> rerender parse e n s = Inr s' \<Longrightarrow> timersOk s'"
proof -
  assume a: "timersOk s" and r: "rerender parse e n s = Inr s'"
  have n: "timersOk (s\<lparr>note_prop := n\<rparr>)" using a by (simp add: timersOk_def)
  from r have "s' = s\<lparr>note_prop := n\<rparr> \<or> s' = noteEffect parse e (s\<lparr>note_prop := n\<rparr>)"
    by (auto simp add: rerender_def Let_def split: sum.splits if_splits)
  with n show ?thesis using timersOk_noteEffect by blast
qed

lemma timersOk_mount: "mount parse e n = Inr s \<Longrightarrow> timersOk s"
proof -
  assume m: "mount parse e n = Inr s"
  then obtain c where "s = noteEffect parse e ((initial n)\<lparr>editor := Some c\<rparr>)"
    by (auto simp add: mount_def split: sum.splits)
  moreover have "timersOk ((initial n)\<lparr>editor := Some c\<rparr>)" by (simp add: timersOk_def initial_def)
  ultimately show ?thesis using timersOk_noteEffect by blast
qed

lemma timersOk_step: "timersOk s \<Longrightarrow> step parse e ev s = Inr s' \<Longrightarrow> timersOk s'"
  by (cases ev)
     (auto simp add: timersOk_userEdit timersOk_manualSave timersOk_settle timersOk_advance
           dest: timersOk_rerender)

lemma timersOk_run: "timersOk s \<Longrightarrow> run parse e evs s = Inr s' \<Longrightarrow> timersOk s'"
proof (induction evs arbitrary: s)
  case Nil
  then show ?case by simp
next
  case (Cons ev evs)
  then show ?case by (auto split: sum.splits dest: timersOk_step)
qed

section \<open>A burst of content changes\<close>

lemma userEdit_unguarded:
  "\<not> isLoadingNoteRef s \<Longrightarrow> editor s \<noteq> None \<Longrightarrow> userEdit c s = autoSave c (s\<lparr>editor := Some c\<rparr>)"
  by (auto simp add: userEdit_def editorOnUpdate_def)

lemma armed_userEdit:
  assumes "timersOk s" "\<not> isLoadingNoteRef s" "editor s \<noteq> None"
  shows "armed (userEdit c s) (calls s) (note_id (note_prop s)) c"
proof -
  let ?s = "s\<lparr>editor := Some c\<rparr>"
  have u: "userEdit c s = autoSave c ?s" using assms by (simp add: userEdit_unguarded)
  have ok: "timersOk ?s" using assms by (simp add: timersOk_editor_update)
  have "saveTimers (autoSave c ?s)
          = [\<lparr>handle = nextHandle ?s, due = now ?s + 2000, act = SaveTimer (note_id (note_prop ?s)) c\<rparr>]"
    using ok by (rule autoSave_saveTimers)
  then show ?thesis
    using assms ok by (simp add: armed_def u autoSave_frame timersOk_autoSave)
qed

lemma saveTimers_advance:
  "saveTimers (advance d s) = filter (\<lambda>t. now s + d < due t) (saveTimers s)"
  by (simp add: saveTimers_def advance_timers conj_commute)

lemma advance_calls_save:
  "calls (advance d s) = calls s @ payloads (dueTimers (now s + d) (saveTimers s))"
proof -
  have "payloads (dueTimers (now s + d) (timers s))
          = payloads (filter isSave (dueTimers (now s + d) (timers s)))"
    by (simp add: payloads_filter_isSave)
  then show ?thesis by (simp add: advance_calls isSave_dueTimers saveTimers_def)
qed

lemma advance_no_save_calls: "saveTimers s = [] \<Longrightarrow> calls (advance d s) = calls s"
  by (simp add: advance_calls_save dueTimers_def payloads_def)

lemma advance_one_save:
  "saveTimers s = [t] \<Longrightarrow>
     calls (advance d s) = calls s @ (if due t \<le> now s + d then payload (act t) else [])"
  by (simp add: advance_calls_save dueTimers_def payloads_def)

lemma advance_unguarded: "\<not> isLoadingNoteRef s \<Longrightarrow> \<not> isLoadingNoteRef (advance d s)"
  by (simp add: advance_guard)

lemma armed_advance:
  assumes "armed s k nid c" "g < 2000"
  shows "timersOk (advance g s) \<and> \<not> isLoadingNoteRef (advance g s) \<and> editor (advance g s) \<noteq> None
         \<and> calls (advance g s) = k \<and> note_id (note_prop (advance g s)) = nid"
proof -
  from assms obtain h where
    t: "saveTimers s = [\<lparr>handle = h, due = now s + 2000, act = SaveTimer nid c\<rparr>]"
    by (auto simp add: armed_def)
  have "calls (advance g s) = calls s" using assms(2) by (simp add: advance_one_save [OF t])
  then show ?thesis
    using assms by (simp add: armed_def timersOk_advance advance_unguarded advance_frame)
qed

lemma armed_fires:
  assumes "armed s k nid c"
  shows "calls (advance 2000 s) = k @ [(nid, c)]"
    and "d < 2000 \<Longrightarrow> calls (advance d s) = k"
    and "length (saveTimers s) = 1"
proof -
  from assms obtain h where
    t: "saveTimers s = [\<lparr>handle = h, due = now s + 2000, act = SaveTimer nid c\<rparr>]"
    by (auto simp add: armed_def)
  have k: "calls s = k" using assms by (simp add: armed_def)
  show "calls (advance 2000 s) = k @ [(nid, c)]" by (simp add: advance_one_save [OF t] k)
  show "d < 2000 \<Longrightarrow> calls (advance d s) = k" by (simp add: advance_one_save [OF t] k)
  show "length (saveTimers s) = 1" by (simp add: t)
qed

lemma armed_burst:
  "armed s k nid c \<Longrightarrow> \<forall>(g, c') \<in> set r. g < 2000 \<Longrightarrow>
     armed (burst r s) k nid (last (c # map snd r))"
proof (induction r arbitrary: s c)
  case Nil
  then show ?case by simp
next
  case (Cons p r)
  obtain g c' where p: "p = (g, c')" by (cases p)
  from Cons.prems p have g: "g < 2000" by simp
  let ?a = "advance g s"
  have a: "timersOk ?a \<and> \<not> isLoadingNoteRef ?a \<and> editor ?a \<noteq> None
           \<and> calls ?a = k \<and> note_id (note_prop ?a) = nid"
    using armed_advance [OF Cons.prems(1) g] .
  then have "armed (userEdit c' ?a) (calls ?a) (note_id (note_prop ?a)) c'"
    using armed_userEdit by blast
  with a have "armed (userEdit c' ?a) k nid c'" by simp
  moreover from Cons.prems have "\<forall>(g, c') \<in> set r. g < 2000" by simp
  ultimately have "armed (burst r (userEdit c' ?a)) k nid (last (c' # map snd r))"
    by (rule Cons.IH)
  then show ?case by (simp add: p)
qed

section \<open>What does not depend on the editor's document\<close>

lemma fold_fire_editor:
  "fold (\<lambda>t. fire (act t)) ts (s\<lparr>editor := x\<rparr>) = (fold (\<lambda>t. fire (act t)) ts s)\<lparr>editor := x\<rparr>"
proof (induction ts arbitrary: s)
  case Nil
  show ?case by simp
next
  case (Cons t ts)
  have "fire (act t) (s\<lparr>editor := x\<rparr>) = (fire (act t) s)\<lparr>editor := x\<rparr>"
    by (cases "act t") (simp_all add: issue_def)
  then show ?case by (simp add: Cons.IH)
qed

lemma forget_advance: "forget (advance d s) = advance d (forget s)"
proof -
  let ?T = "now s + d"
  let ?D = "dueTimers ?T (timers s)"
  let ?s1 = "s\<lparr>timers := filter (\<lambda>t. ?T < due t) (timers s)\<rparr>"
  have e: "(s\<lparr>editor := None\<rparr>)\<lparr>timers := filter (\<lambda>t. ?T < due t) (timers s)\<rparr> = ?s1\<lparr>editor := None\<rparr>"
    by simp
  have "advance d (forget s) = (fold (\<lambda>t. fire (act t)) ?D (?s1\<lparr>editor := None\<rparr>))\<lparr>now := ?T\<rparr>"
    by (simp add: forget_def advance_def Let_def e)
  also have "\<dots> = ((fold (\<lambda>t. fire (act t)) ?D ?s1)\<lparr>editor := None\<rparr>)\<lparr>now := ?T\<rparr>"
    by (simp only: fold_fire_editor)
  also have "\<dots> = forget (advance d s)"
    by (simp add: forget_def advance_def Let_def)
  finally show ?thesis by simp
qed

lemma forget_settle: "forget (settle i ok s) = settle i ok (forget s)"
  by (simp add: forget_def settle_def Let_def)

lemma forget_noteEffect: "forget s = forget t \<Longrightarrow> forget (noteEffect parse e s) = forget (noteEffect parse e t)"
proof -
  assume a: "forget s = forget t"
  have f: "\<And>u ed. forget (u\<lparr>isLoadingNoteRef := True, hasUnsavedChanges := False, lastSaved := None,
       editor := ed,
       timers := timers u @ [\<lparr>handle = nextHandle u, due = now u + 100, act = GuardTimer\<rparr>],
       nextHandle := Suc (nextHandle u)\<rparr>)
     = (forget u)\<lparr>isLoadingNoteRef := True, hasUnsavedChanges := False, lastSaved := None,
       timers := timers (forget u) @ [\<lparr>handle = nextHandle (forget u), due = now (forget u) + 100, act = GuardTimer\<rparr>],
       nextHandle := Suc (nextHandle (forget u))\<rparr>"
    by (simp add: forget_def)
  have "forget (noteEffect parse e s) = (forget s)\<lparr>isLoadingNoteRef := True, hasUnsavedChanges := False, lastSaved := None,
       timers := timers (forget s) @ [\<lparr>handle = nextHandle (forget s), due = now (forget s) + 100, act = GuardTimer\<rparr>],
       nextHandle := Suc (nextHandle (forget s))\<rparr>"
    using noteEffect_eq [of parse e s] f [of s "editor (noteEffect parse e s)"] by simp
  moreover have "forget (noteEffect parse e t) = (forget t)\<lparr>isLoadingNoteRef := True, hasUnsavedChanges := False, lastSaved := None,
       timers := timers (forget t) @ [\<lparr>handle = nextHandle (forget t), due = now (forget t) + 100, act = GuardTimer\<rparr>],
       nextHandle := Suc (nextHandle (forget t))\<rparr>"
    using noteEffect_eq [of parse e t] f [of t "editor (noteEffect parse e t)"] by simp
  ultimately show ?thesis using a by simp
qed

lemma forget_fields:
  assumes a: "forget s = forget t"
  shows "note_prop s = note_prop t \<and> calls s = calls t \<and> timers s = timers t
     \<and> hasUnsavedChanges s = hasUnsavedChanges t \<and> isLoadingNoteRef s = isLoadingNoteRef t"
proof (intro conjI)
  show "note_prop s = note_prop t" using arg_cong [OF a, of note_prop] by (simp add: forget_def)
  show "calls s = calls t" using arg_cong [OF a, of calls] by (simp add: forget_def)
  show "timers s = timers t" using arg_cong [OF a, of timers] by (simp add: forget_def)
  show "hasUnsavedChanges s = hasUnsavedChanges t"
    using arg_cong [OF a, of hasUnsavedChanges] by (simp add: forget_def)
  show "isLoadingNoteRef s = isLoadingNoteRef t"
    using arg_cong [OF a, of isLoadingNoteRef] by (simp add: forget_def)
qed

lemma forget_note_prop: "forget s = forget t \<Longrightarrow> forget (s\<lparr>note_prop := n\<rparr>) = forget (t\<lparr>note_prop := n\<rparr>)"
proof -
  assume a: "forget s = forget t"
  have "forget (s\<lparr>note_prop := n\<rparr>) = (forget s)\<lparr>note_prop := n\<rparr>" by (simp add: forget_def)
  moreover have "forget (t\<lparr>note_prop := n\<rparr>) = (forget t)\<lparr>note_prop := n\<rparr>" by (simp add: forget_def)
  ultimately show ?thesis using a by simp
qed

lemma forget_rerender:
  assumes "forget s = forget t"
  shows "(case rerender parse e n s of
            Inl err \<Rightarrow> rerender parse e n t = Inl err
          | Inr s' \<Rightarrow> (\<exists>t'. rerender parse e n t = Inr t' \<and> forget s' = forget t'))"
proof (cases "render parse n")
  case (Inl err)
  then show ?thesis by (simp add: rerender_def)
next
  case (Inr c)
  have np: "note_prop s = note_prop t" using forget_fields [OF assms] by simp
  have a: "forget (s\<lparr>note_prop := n\<rparr>) = forget (t\<lparr>note_prop := n\<rparr>)"
    using assms by (rule forget_note_prop)
  have b: "forget (noteEffect parse e (s\<lparr>note_prop := n\<rparr>)) = forget (noteEffect parse e (t\<lparr>note_prop := n\<rparr>))"
    using a by (rule forget_noteEffect)
  show ?thesis
  proof (cases "note_id n = note_id (note_prop t) \<and> content_json n = content_json (note_prop t)")
    case True
    then have "rerender parse e n s = Inr (s\<lparr>note_prop := n\<rparr>)"
      and "rerender parse e n t = Inr (t\<lparr>note_prop := n\<rparr>)"
      using Inr np by (simp_all add: rerender_def Let_def)
    then show ?thesis using a by simp
  next
    case False
    then have "rerender parse e n s = Inr (noteEffect parse e (s\<lparr>note_prop := n\<rparr>))"
      and "rerender parse e n t = Inr (noteEffect parse e (t\<lparr>note_prop := n\<rparr>))"
      using Inr np by (auto simp add: rerender_def Let_def)
    then show ?thesis using b by simp
  qed
qed

lemma forget_step:
  assumes "forget s = forget t" "quiet ev"
  shows "(case step parse e ev s of
            Inl err \<Rightarrow> step parse e ev t = Inl err
          | Inr s' \<Rightarrow> (\<exists>t'. step parse e ev t = Inr t' \<and> forget s' = forget t'))"
proof (cases ev)
  case (SetNote n)
  show ?thesis unfolding SetNote step.simps using forget_rerender [OF assms(1), of parse e n] .
next
  case (Settle i ok)
  show ?thesis unfolding Settle using assms(1) by (simp add: forget_settle)
next
  case (Advance d)
  show ?thesis unfolding Advance using assms(1) by (simp add: forget_advance)
qed (use assms in simp_all)

lemma forget_run:
  "forget s = forget t \<Longrightarrow> \<forall>ev \<in> set evs. quiet ev \<Longrightarrow>
     callsOf (run parse e evs s) = callsOf (run parse e evs t)"
proof (induction evs arbitrary: s t)
  case Nil
  then show ?case using forget_fields [of s t] by (simp add: callsOf_def)
next
  case (Cons ev evs)
  from Cons.prems have q: "quiet ev" and qs: "\<forall>ev \<in> set evs. quiet ev" by simp_all
  show ?case
  proof (cases "step parse e ev s")
    case (Inl err)
    with forget_step [OF Cons.prems(1) q, of parse e] have "step parse e ev t = Inl err" by simp
    with Inl show ?thesis by (simp add: callsOf_def)
  next
    case (Inr s')
    with forget_step [OF Cons.prems(1) q, of parse e]
    obtain t' where t: "step parse e ev t = Inr t'" and f: "forget s' = forget t'" by auto
    from Cons.IH [OF f qs] Inr t show ?thesis by simp
  qed
qed

section \<open>The effect, the switch and the saves\<close>

lemma noteEffect_fields:
  "isLoadingNoteRef (noteEffect parse e s) \<and> \<not> hasUnsavedChanges (noteEffect parse e s)
   \<and> lastSaved (noteEffect parse e s) = None
   \<and> note_prop (noteEffect parse e s) = note_prop s
   \<and> calls (noteEffect parse e s) = calls s
   \<and> inflight (noteEffect parse e s) = inflight s
   \<and> now (noteEffect parse e s) = now s
   \<and> saveTimeoutRef (noteEffect parse e s) = saveTimeoutRef s
   \<and> timers (noteEffect parse e s)
         = timers s @ [\<lparr>handle = nextHandle s, due = now s + 100, act = GuardTimer\<rparr>]"
proof -
  let ?r = "s\<lparr>isLoadingNoteRef := True, hasUnsavedChanges := False, lastSaved := None,
       editor := editor (noteEffect parse e s),
       timers := timers s @ [\<lparr>handle = nextHandle s, due = now s + 100, act = GuardTimer\<rparr>],
       nextHandle := Suc (nextHandle s)\<rparr>"
  have "isLoadingNoteRef ?r \<and> \<not> hasUnsavedChanges ?r \<and> lastSaved ?r = None
   \<and> note_prop ?r = note_prop s \<and> calls ?r = calls s \<and> inflight ?r = inflight s
   \<and> now ?r = now s \<and> saveTimeoutRef ?r = saveTimeoutRef s
   \<and> timers ?r = timers s @ [\<lparr>handle = nextHandle s, due = now s + 100, act = GuardTimer\<rparr>]"
    by simp
  then show ?thesis using noteEffect_eq [of parse e s] by simp
qed

lemma noteEffect_saveTimers: "saveTimers (noteEffect parse e s) = saveTimers s"
  by (simp add: saveTimers_def noteEffect_fields isSave_def)

lemma noteEffect_editor:
  "editor s \<noteq> None \<Longrightarrow> editor (noteEffect parse e s) \<noteq> None"
  by (auto simp add: noteEffect_def Let_def setTimeout_def setContent_guarded split: option.splits)

lemma rerender_switch:
  assumes "note_id n \<noteq> note_id (note_prop s)" "render parse n = Inr c"
  shows "rerender parse e n s = Inr (noteEffect parse e (s\<lparr>note_prop := n\<rparr>))"
  using assms by (simp add: rerender_def Let_def)

text \<open>
  Claim C7. Switching to a note of another id (whose render returns) leaves a session whose
  unsaved-changes flag is false and whose last-saved time is absent, whatever the session
  was before; the guard is set and the note is the new one.
\<close>

theorem switch_resets_session:
  assumes "note_id n \<noteq> note_id (note_prop s)" and "render parse n = Inr c"
  shows "\<exists>s'. rerender parse e n s = Inr s'
           \<and> \<not> hasUnsavedChanges s' \<and> lastSaved s' = None
           \<and> isLoadingNoteRef s' \<and> note_prop s' = n"
  using rerender_switch [OF assms] by (simp add: noteEffect_fields)

text \<open>
  Claim C5. A note whose non-empty \<open>content_json\<close> does not parse: rendering the component
  with it throws, at mount and at a switch alike, before the effect that would fall back to
  the empty document runs.
\<close>

theorem unparsable_note_throws:
  assumes "content_json n \<noteq> []" and "parse (content_json n) = None"
  shows "mount parse e n = Inl SyntaxError \<and> rerender parse e n s = Inl SyntaxError"
  using assms by (simp add: mount_def rerender_def render_def)

lemma noteEffect_unparsable:
  assumes "editor s = Some cur" and "content_json (note_prop s) \<noteq> []"
    and "parse (content_json (note_prop s)) = None"
  shows "editor (noteEffect parse e s) = Some emptyContent \<or> cur = content_json (note_prop s)"
  using assms by (auto simp add: noteEffect_def Let_def setTimeout_def setContent_guarded)

text \<open>
  Claim C3. \<open>manualSave\<close> does nothing without unsaved changes. With unsaved changes it
  issues one persistence call at once, carrying the active note's id and the editor's
  document, and changes nothing else but \<open>isSaving\<close>: the pending timeouts stay as they
  are. Once that call has succeeded, a second \<open>manualSave\<close> issues no further call.
\<close>

theorem manualSave_behaviour:
  "(\<not> hasUnsavedChanges s \<longrightarrow> manualSave s = s)
   \<and> (hasUnsavedChanges s \<and> editor s = Some c \<longrightarrow>
        manualSave s = s\<lparr>isSaving := True,
                         inflight := inflight s @ [(note_id (note_prop s), c)],
                         calls := calls s @ [(note_id (note_prop s), c)]\<rparr>
        \<and> timers (manualSave s) = timers s
        \<and> calls (manualSave (settle (length (inflight s)) True (manualSave s)))
              = calls s @ [(note_id (note_prop s), c)])"
  by (simp add: manualSave_def issue_def settle_def Let_def split: option.splits)


section \<open>Sessions reached from a mount; the loading guard\<close>

lemma editor_step: "editor s \<noteq> None \<Longrightarrow> step parse e ev s = Inr s' \<Longrightarrow> editor s' \<noteq> None"
proof (cases ev)
  case (Edit c)
  assume "editor s \<noteq> None" "step parse e ev s = Inr s'"
  with Edit show ?thesis
    by (auto simp add: userEdit_def editorOnUpdate_def autoSave_frame)
next
  case (SetNote n)
  assume a: "editor s \<noteq> None" "step parse e ev s = Inr s'"
  then have "s' = s\<lparr>note_prop := n\<rparr> \<or> s' = noteEffect parse e (s\<lparr>note_prop := n\<rparr>)"
    using SetNote by (auto simp add: rerender_def Let_def split: sum.splits if_splits)
  moreover have "editor (s\<lparr>note_prop := n\<rparr>) \<noteq> None" using a by simp
  ultimately show ?thesis using noteEffect_editor by auto
next
  case ManualSave
  assume "editor s \<noteq> None" "step parse e ev s = Inr s'"
  with ManualSave show ?thesis by (auto simp add: manualSave_def issue_def)
next
  case (Settle i ok)
  assume "editor s \<noteq> None" "step parse e ev s = Inr s'"
  with Settle show ?thesis by (auto simp add: settle_def Let_def)
next
  case (Advance d)
  assume "editor s \<noteq> None" "step parse e ev s = Inr s'"
  with Advance show ?thesis by (auto simp add: advance_frame)
qed

lemma editor_run: "editor s \<noteq> None \<Longrightarrow> run parse e evs s = Inr s' \<Longrightarrow> editor s' \<noteq> None"
proof (induction evs arbitrary: s)
  case Nil
  then show ?case by simp
next
  case (Cons ev evs)
  from Cons.prems(2) obtain s1 where st: "step parse e ev s = Inr s1" and r: "run parse e evs s1 = Inr s'"
    by (auto split: sum.splits)
  have "editor s1 \<noteq> None" using Cons.prems(1) st by (rule editor_step)
  then show ?case using r by (rule Cons.IH)
qed

lemma reachable_ok:
  assumes "mountAndRun parse e n evs = Inr s"
  shows "timersOk s \<and> editor s \<noteq> None"
proof -
  from assms obtain s0 where m: "mount parse e n = Inr s0" and r: "run parse e evs s0 = Inr s"
    by (auto simp add: mountAndRun_def split: sum.splits)
  from m obtain c where "s0 = noteEffect parse e ((initial n)\<lparr>editor := Some c\<rparr>)"
    by (auto simp add: mount_def split: sum.splits)
  then have "editor s0 \<noteq> None" using noteEffect_editor [of "(initial n)\<lparr>editor := Some c\<rparr>"] by simp
  then have "editor s \<noteq> None" using r by (rule editor_run)
  moreover have "timersOk s" using timersOk_mount [OF m] r by (rule timersOk_run)
  ultimately show ?thesis by simp
qed

lemma rerender_frame:
  assumes "rerender parse e n s = Inr s'"
  shows "calls s' = calls s \<and> saveTimers s' = saveTimers s \<and> now s' = now s
         \<and> saveTimeoutRef s' = saveTimeoutRef s"
proof -
  from assms have "s' = s\<lparr>note_prop := n\<rparr> \<or> s' = noteEffect parse e (s\<lparr>note_prop := n\<rparr>)"
    by (auto simp add: rerender_def Let_def split: sum.splits if_splits)
  then show ?thesis
  proof
    assume "s' = s\<lparr>note_prop := n\<rparr>"
    then show ?thesis by (simp add: saveTimers_def)
  next
    assume "s' = noteEffect parse e (s\<lparr>note_prop := n\<rparr>)"
    then show ?thesis by (simp add: noteEffect_fields noteEffect_saveTimers) (simp add: saveTimers_def)
  qed
qed

lemma mount_fields:
  assumes "mount parse e n = Inr s"
  shows "calls s = [] \<and> saveTimers s = [] \<and> \<not> hasUnsavedChanges s"
proof -
  from assms obtain c where s: "s = noteEffect parse e ((initial n)\<lparr>editor := Some c\<rparr>)"
    by (auto simp add: mount_def split: sum.splits)
  show ?thesis
    by (simp add: s noteEffect_fields noteEffect_saveTimers) (simp add: saveTimers_def initial_def)
qed

text \<open>
  Claim C6. While the guard is set the editor's update notification leaves the session as it
  is. A mounted note followed by no input never issues a persistence call, however much time
  passes; loading a note on a switch issues none and sets no save timeout, so that with no
  save timeout pending before the switch none is issued afterwards either. A switch sets the
  guard, and 100 ms later it is clear.
\<close>

theorem guard_suppresses_load_notification:
  "(isLoadingNoteRef s \<longrightarrow> editorOnUpdate s = s)
   \<and> (mount parse e n = Inr s \<longrightarrow>
        calls (advance d s) = [] \<and> saveTimers (advance d s) = [] \<and> \<not> hasUnsavedChanges (advance d s))
   \<and> (rerender parse e n s = Inr s' \<longrightarrow>
        calls s' = calls s \<and> saveTimers s' = saveTimers s
        \<and> (saveTimers s = [] \<longrightarrow> calls (advance d s') = calls s))
   \<and> (note_id n \<noteq> note_id (note_prop s) \<and> rerender parse e n s = Inr s' \<longrightarrow>
        isLoadingNoteRef s' \<and> \<not> isLoadingNoteRef (advance 100 s'))"
proof (intro conjI impI)
  assume "isLoadingNoteRef s"
  then show "editorOnUpdate s = s" by (rule editorOnUpdate_guarded)
next
  assume m: "mount parse e n = Inr s"
  show "calls (advance d s) = []"
    using mount_fields [OF m] by (simp add: advance_no_save_calls)
  show "saveTimers (advance d s) = []"
    using mount_fields [OF m] by (simp add: saveTimers_advance)
  show "\<not> hasUnsavedChanges (advance d s)"
    using mount_fields [OF m] by (simp add: advance_frame)
next
  assume r: "rerender parse e n s = Inr s'"
  show "calls s' = calls s" using rerender_frame [OF r] by simp
  show "saveTimers s' = saveTimers s" using rerender_frame [OF r] by simp
  assume "saveTimers s = []"
  then show "calls (advance d s') = calls s"
    using rerender_frame [OF r] by (simp add: advance_no_save_calls)
next
  assume a: "note_id n \<noteq> note_id (note_prop s) \<and> rerender parse e n s = Inr s'"
  then have "s' = noteEffect parse e (s\<lparr>note_prop := n\<rparr>)"
    by (auto simp add: rerender_def Let_def split: sum.splits)
  then have g: "isLoadingNoteRef s'" and n: "now s' = now s"
    and t: "timers s' = timers s @ [\<lparr>handle = nextHandle s, due = now s + 100, act = GuardTimer\<rparr>]"
    by (simp_all add: noteEffect_fields)
  show "isLoadingNoteRef s'" by (rule g)
  show "\<not> isLoadingNoteRef (advance 100 s')" by (simp add: advance_guard n t)
qed

lemma userEdit_guarded: "isLoadingNoteRef s \<Longrightarrow> editor s \<noteq> None \<Longrightarrow> userEdit c s = s\<lparr>editor := Some c\<rparr>"
  by (auto simp add: userEdit_def editorOnUpdate_def)

lemma forget_userEdit_guarded: "isLoadingNoteRef s \<Longrightarrow> forget (userEdit c s) = forget s"
  by (cases "editor s") (simp_all add: userEdit_def editorOnUpdate_def forget_def)

text \<open>
  Claim C10. A content change made while the guard is set changes the editor's document and
  nothing else: the unsaved-changes flag, the timeouts and the calls are as before. Over any
  later events that are neither a content change nor a manual save, the persistence calls
  are those that would have been issued had the change never been made. After a switch with
  no earlier guard timeout pending, the guard stays set for the next 100 ms.
\<close>

theorem guarded_edit_discarded:
  "(isLoadingNoteRef s \<and> editor s \<noteq> None \<longrightarrow> userEdit c s = s\<lparr>editor := Some c\<rparr>)
   \<and> (isLoadingNoteRef s \<and> (\<forall>ev \<in> set evs. quiet ev) \<longrightarrow>
        callsOf (run parse e evs (userEdit c s)) = callsOf (run parse e evs s))
   \<and> (\<not> guardPending s \<and> note_id n \<noteq> note_id (note_prop s)
        \<and> rerender parse e n s = Inr s' \<and> d < 100 \<longrightarrow> isLoadingNoteRef (advance d s'))"
proof (intro conjI impI)
  assume "isLoadingNoteRef s \<and> editor s \<noteq> None"
  then show "userEdit c s = s\<lparr>editor := Some c\<rparr>" by (simp add: userEdit_guarded)
next
  assume a: "isLoadingNoteRef s \<and> (\<forall>ev \<in> set evs. quiet ev)"
  then have "forget (userEdit c s) = forget s" by (simp add: forget_userEdit_guarded)
  moreover from a have "\<forall>ev \<in> set evs. quiet ev" by simp
  ultimately show "callsOf (run parse e evs (userEdit c s)) = callsOf (run parse e evs s)"
    by (rule forget_run)
next
  assume a: "\<not> guardPending s \<and> note_id n \<noteq> note_id (note_prop s)
        \<and> rerender parse e n s = Inr s' \<and> d < 100"
  then have "s' = noteEffect parse e (s\<lparr>note_prop := n\<rparr>)"
    by (auto simp add: rerender_def Let_def split: sum.splits)
  then have g: "isLoadingNoteRef s'" and n: "now s' = now s"
    and t: "timers s' = timers s @ [\<lparr>handle = nextHandle s, due = now s + 100, act = GuardTimer\<rparr>]"
    by (simp_all add: noteEffect_fields)
  from a have "\<forall>t \<in> set (timers s). act t \<noteq> GuardTimer" by (simp add: guardPending_def)
  with a show "isLoadingNoteRef (advance d s')" by (simp add: advance_guard g n t)
qed

section \<open>Rejected saves, switches and bursts\<close>










lemma unmount_saveTimers:
  assumes "timersOk s"
  shows "saveTimers (unmount s) = []"
proof (cases "saveTimeoutRef s")
  case None
  with assms have "\<forall>t \<in> set (timers s). \<not> isSave t" by (simp add: timersOk_def)
  then show ?thesis using None by (simp add: unmount_def saveTimers_def filter_empty_conv)
next
  case (Some h)
  with assms have "\<forall>t \<in> set (timers s). isSave t \<longrightarrow> handle t = h" by (simp add: timersOk_def)
  then show ?thesis using Some
    by (auto simp add: unmount_def clearTimeout_def saveTimers_def filter_empty_conv)
qed

lemma unmount_calls: "calls (unmount s) = calls s"
  by (simp add: unmount_def clearTimeout_def split: option.splits)

text \<open>
  Claim C1, as the code has it. After a content change on the active note, a switch to
  another note within the 2000 ms leaves the save timeout pending; when the 2000 ms since
  the change have passed it fires, and the one persistence call it issues carries the id of
  the note the change was made on and the content of that change. Unmounting instead
  clears the timeout, and no call is issued however much time passes.
\<close>

theorem switch_keeps_save_timeout:
  assumes "mountAndRun parse e n0 evs = Inr s" and "\<not> isLoadingNoteRef s" and "g < 2000"
  shows "(rerender parse e n (advance g (userEdit c s)) = Inr s' \<longrightarrow>
            saveTimers s' = saveTimers (advance g (userEdit c s))
            \<and> length (saveTimers s') = 1
            \<and> calls s' = calls s
            \<and> calls (advance (2000 - g) s') = calls s @ [(note_id (note_prop s), c)])
         \<and> calls (advance d (unmount (advance g (userEdit c s)))) = calls s"
proof -
  have ok: "timersOk s" and ed: "editor s \<noteq> None" using reachable_ok [OF assms(1)] by simp_all
  let ?u = "userEdit c s"
  let ?a = "advance g ?u"
  let ?nid = "note_id (note_prop s)"
  have ar: "armed ?u (calls s) ?nid c" using ok assms(2) ed by (rule armed_userEdit)
  then obtain h where t: "saveTimers ?u = [\<lparr>handle = h, due = now ?u + 2000, act = SaveTimer ?nid c\<rparr>]"
    by (auto simp add: armed_def)
  have nu: "now ?u = now s"
    using assms(2) ed by (simp add: userEdit_unguarded autoSave_frame)
  have ta: "saveTimers ?a = [\<lparr>handle = h, due = now s + 2000, act = SaveTimer ?nid c\<rparr>]"
    using assms(3) by (simp add: saveTimers_advance t nu)
  have ca: "calls ?a = calls s" using armed_advance [OF ar assms(3)] by simp
  have na: "now ?a = now s + g" by (simp add: advance_frame nu)
  have oka: "timersOk ?a" using armed_advance [OF ar assms(3)] by simp
  have sw: "rerender parse e n ?a = Inr s' \<longrightarrow>
            saveTimers s' = saveTimers ?a \<and> length (saveTimers s') = 1 \<and> calls s' = calls s
            \<and> calls (advance (2000 - g) s') = calls s @ [(?nid, c)]"
  proof
    assume r: "rerender parse e n ?a = Inr s'"
    have f: "calls s' = calls ?a \<and> saveTimers s' = saveTimers ?a \<and> now s' = now ?a"
      using rerender_frame [OF r] by simp
    then have ts: "saveTimers s' = [\<lparr>handle = h, due = now s + 2000, act = SaveTimer ?nid c\<rparr>]"
      by (simp add: ta)
    have "calls (advance (2000 - g) s') = calls s @ [(?nid, c)]"
      using assms(3) f by (simp add: advance_one_save [OF ts] ca na)
    moreover have "length (saveTimers s') = 1" by (simp add: ts)
    moreover have "saveTimers s' = saveTimers ?a" using f by simp
    moreover have "calls s' = calls s" using f ca by simp
    ultimately show "saveTimers s' = saveTimers ?a \<and> length (saveTimers s') = 1 \<and> calls s' = calls s
            \<and> calls (advance (2000 - g) s') = calls s @ [(?nid, c)]"
      by blast
  qed
  have "saveTimers (unmount ?a) = []" using oka by (rule unmount_saveTimers)
  then have "calls (advance d (unmount ?a)) = calls (unmount ?a)" by (rule advance_no_save_calls)
  then have un: "calls (advance d (unmount ?a)) = calls s" by (simp add: unmount_calls ca)
  show ?thesis using sw un by blast
qed

text \<open>
  Claim C2. In every session reached from a mount at most one save timeout is pending. A
  burst of content changes, each less than 2000 ms after the one before, made while the
  guard is clear: no persistence call is issued before 2000 ms have passed since the last
  change, and then exactly one is, carrying the active note's id and the content of the last
  change, which is the document the editor holds at that moment.
\<close>

theorem debounced_burst_saves_once:
  "(mountAndRun parse e n evs = Inr s \<longrightarrow> length (saveTimers s) \<le> 1)
   \<and> (mountAndRun parse e n evs = Inr s \<and> \<not> isLoadingNoteRef s \<and> (\<forall>(g, c) \<in> set r. g < 2000) \<longrightarrow>
        calls (advance 2000 (burst r (userEdit c0 s)))
           = calls s @ [(note_id (note_prop s), last (c0 # map snd r))]
        \<and> editor (advance 2000 (burst r (userEdit c0 s))) = Some (last (c0 # map snd r))
        \<and> (\<forall>d < 2000. calls (advance d (burst r (userEdit c0 s))) = calls s)
        \<and> length (saveTimers (burst r (userEdit c0 s))) = 1)"
proof (intro conjI impI)
  assume "mountAndRun parse e n evs = Inr s"
  then show "length (saveTimers s) \<le> 1" using reachable_ok timersOk_save_le1 by blast
next
  assume a: "mountAndRun parse e n evs = Inr s \<and> \<not> isLoadingNoteRef s \<and> (\<forall>(g, c) \<in> set r. g < 2000)"
  then have ok: "timersOk s" and ed: "editor s \<noteq> None" using reachable_ok [of parse e n evs s] by simp_all
  from a have g: "\<not> isLoadingNoteRef s" and r: "\<forall>(g, c) \<in> set r. g < 2000" by simp_all
  have "armed (userEdit c0 s) (calls s) (note_id (note_prop s)) c0" using ok g ed by (rule armed_userEdit)
  then have b: "armed (burst r (userEdit c0 s)) (calls s) (note_id (note_prop s)) (last (c0 # map snd r))"
    using r by (rule armed_burst)
  show "calls (advance 2000 (burst r (userEdit c0 s)))
           = calls s @ [(note_id (note_prop s), last (c0 # map snd r))]"
    using armed_fires(1) [OF b] .
  show "editor (advance 2000 (burst r (userEdit c0 s))) = Some (last (c0 # map snd r))"
    using b by (simp add: advance_frame armed_def)
  show "\<forall>d < 2000. calls (advance d (burst r (userEdit c0 s))) = calls s"
    using armed_fires(2) [OF b] by simp
  show "length (saveTimers (burst r (userEdit c0 s))) = 1"
    using armed_fires(3) [OF b] .
qed

section \<open>Concrete runs\<close>

text \<open>The definitions a concrete run is evaluated with.\<close>

lemmas model_defs = mountAndRun_def mount_def render_def noteEffect_def setContent_def
  editorOnUpdate_def userEdit_def autoSave_def setTimeout_def clearTimeout_def initial_def
  rerender_def manualSave_def issue_def settle_def advance_def dueTimers_def unmount_def
  callsOf_def saveTimers_def isSave_def guardPending_def Let_def

text \<open>
  A run against the claim that a switch cancels the pending save timeout: note 1 is edited
  at 100 ms, note 2 becomes the active note at 600 ms, and at 2100 ms the timeout set for
  note 1 fires and issues a persistence call for note 1's pending edit.
\<close>

theorem switch_cancels_timer_counterexample:
  "callsOf (mountAndRun Some True
      \<lparr>note_id = 1, subject_id = 7, title = ''A'', content_json = ''a0''\<rparr>
      [Advance 100, Edit ''a1'', Advance 500,
       SetNote \<lparr>note_id = 2, subject_id = 7, title = ''B'', content_json = ''b0''\<rparr>,
       Advance 1500])
   = Inr [(1, ''a1'')]"
  by (simp add: model_defs)

text \<open>The same run, through the theorem; and the unmount in place of the switch.\<close>

theorem switch_keeps_save_timeout_witness:
  "\<exists>s s'. mountAndRun Some True \<lparr>note_id = 1, subject_id = 7, title = ''A'', content_json = ''a0''\<rparr>
              [Advance 100] = Inr s
      \<and> \<not> isLoadingNoteRef s
      \<and> rerender Some True \<lparr>note_id = 2, subject_id = 7, title = ''B'', content_json = ''b0''\<rparr>
            (advance 500 (userEdit ''a1'' s)) = Inr s'
      \<and> length (saveTimers s') = 1
      \<and> calls (advance 1500 s') = [(1, ''a1'')]
      \<and> calls (advance 5000 (unmount (advance 500 (userEdit ''a1'' s)))) = []"
proof -
  let ?A = "\<lparr>note_id = 1, subject_id = 7, title = ''A'', content_json = ''a0''\<rparr>"
  let ?B = "\<lparr>note_id = 2, subject_id = 7, title = ''B'', content_json = ''b0''\<rparr>"
  let ?s = "\<lparr>note_prop = ?A, editor = Some ''a0'', isSaving = False, lastSaved = None,
        hasUnsavedChanges = False, saveTimeoutRef = None, isLoadingNoteRef = False,
        now = 100, nextHandle = 2, timers = [], inflight = [], calls = []\<rparr>"
  let ?t = "\<lparr>note_prop = ?B, editor = Some ''b0'', isSaving = False, lastSaved = None,
        hasUnsavedChanges = False, saveTimeoutRef = Some 2, isLoadingNoteRef = True,
        now = 600, nextHandle = 4,
        timers = [\<lparr>handle = 2, due = 2100, act = SaveTimer 1 ''a1''\<rparr>,
                  \<lparr>handle = 3, due = 700, act = GuardTimer\<rparr>],
        inflight = [], calls = []\<rparr>"
  have m: "mountAndRun Some True ?A [Advance 100] = Inr ?s" by (simp add: model_defs)
  have g: "\<not> isLoadingNoteRef ?s" by simp
  have r: "rerender Some True ?B (advance 500 (userEdit ''a1'' ?s)) = Inr ?t"
    by (simp add: model_defs)
  have lt: "(500::nat) < 2000" by simp
  note T = switch_keeps_save_timeout
             [of Some True "?A" "[Advance 100]" "?s" 500 "?B" "''a1''" "?t" 5000, OF m g lt]
  from T r have "length (saveTimers ?t) = 1"
    and c1: "calls (advance (2000 - 500) ?t) = calls ?s @ [(note_id (note_prop ?s), ''a1'')]"
    and c2: "calls (advance 5000 (unmount (advance 500 (userEdit ''a1'' ?s)))) = calls ?s"
    by blast+
  moreover from c1 have "calls (advance 1500 ?t) = [(1, ''a1'')]" by simp
  moreover from c2 have "calls (advance 5000 (unmount (advance 500 (userEdit ''a1'' ?s)))) = []"
    by simp
  ultimately have "length (saveTimers ?t) = 1 \<and> calls (advance 1500 ?t) = [(1, ''a1'')]
        \<and> calls (advance 5000 (unmount (advance 500 (userEdit ''a1'' ?s)))) = []"
    by blast
  with m g r show ?thesis by blast
qed

text \<open>
  Three content changes at 100 ms, 600 ms and 2599 ms: nothing is issued by 4598 ms, and at
  4599 ms one call with the third content.
\<close>

theorem debounced_burst_saves_once_witness:
  "\<exists>s. mountAndRun Some True \<lparr>note_id = 1, subject_id = 7, title = ''A'', content_json = ''a0''\<rparr>
              [Advance 100] = Inr s
      \<and> \<not> isLoadingNoteRef s
      \<and> length (saveTimers s) \<le> 1
      \<and> calls (advance 2000 (burst [(500, ''a2''), (1999, ''a3'')] (userEdit ''a1'' s))) = [(1, ''a3'')]
      \<and> editor (advance 2000 (burst [(500, ''a2''), (1999, ''a3'')] (userEdit ''a1'' s))) = Some ''a3''
      \<and> calls (advance 1999 (burst [(500, ''a2''), (1999, ''a3'')] (userEdit ''a1'' s))) = []
      \<and> length (saveTimers (burst [(500, ''a2''), (1999, ''a3'')] (userEdit ''a1'' s))) = 1"
proof -
  let ?A = "\<lparr>note_id = 1, subject_id = 7, title = ''A'', content_json = ''a0''\<rparr>"
  let ?s = "\<lparr>note_prop = ?A, editor = Some ''a0'', isSaving = False, lastSaved = None,
        hasUnsavedChanges = False, saveTimeoutRef = None, isLoadingNoteRef = False,
        now = 100, nextHandle = 2, timers = [], inflight = [], calls = []\<rparr>"
  let ?r = "[(500::nat, ''a2''), (1999, ''a3'')]"
  let ?b = "burst ?r (userEdit ''a1'' ?s)"
  have m: "mountAndRun Some True ?A [Advance 100] = Inr ?s" by (simp add: model_defs)
  have g: "\<not> isLoadingNoteRef ?s" by simp
  have r: "\<forall>(g, c) \<in> set ?r. g < 2000" by simp
  note T = debounced_burst_saves_once [of Some True "?A" "[Advance 100]" "?s" "?r" "''a1''"]
  from T m g r have "length (saveTimers ?s) \<le> 1"
    and c1: "calls (advance 2000 ?b) = calls ?s @ [(note_id (note_prop ?s), last (''a1'' # map snd ?r))]"
    and c2: "editor (advance 2000 ?b) = Some (last (''a1'' # map snd ?r))"
    and c3: "\<forall>d < 2000. calls (advance d ?b) = calls ?s"
    and "length (saveTimers ?b) = 1"
    by blast+
  moreover from c1 have "calls (advance 2000 ?b) = [(1, ''a3'')]" by simp
  moreover from c2 have "editor (advance 2000 ?b) = Some ''a3''" by simp
  moreover from c3 have "calls (advance 1999 ?b) = []" by simp
  ultimately show ?thesis using m g by blast
qed

text \<open>
  A run against the claim that a manual save cancels the pending save timeout: the note is
  edited and saved by hand at 100 ms; the timeout set by the edit is still pending and
  fires at 2100 ms, issuing a second call.
\<close>

theorem manualSave_cancels_timer_counterexample:
  "callsOf (mountAndRun Some True
      \<lparr>note_id = 1, subject_id = 7, title = ''A'', content_json = ''a0''\<rparr>
      [Advance 100, Edit ''a1'', ManualSave, Advance 2000])
   = Inr [(1, ''a1''), (1, ''a1'')]"
  by (simp add: model_defs)

text \<open>A session with unsaved changes and a pending save timeout, saved by hand.\<close>

theorem manualSave_behaviour_witness:
  "(let s = \<lparr>note_prop = \<lparr>note_id = 1, subject_id = 7, title = ''A'', content_json = ''a0''\<rparr>,
              editor = Some ''a1'', isSaving = False, lastSaved = None,
              hasUnsavedChanges = True, saveTimeoutRef = Some 2, isLoadingNoteRef = False,
              now = 600, nextHandle = 3,
              timers = [\<lparr>handle = 2, due = 2100, act = SaveTimer 1 ''a1''\<rparr>],
              inflight = [], calls = []\<rparr>
    in hasUnsavedChanges s
       \<and> calls (manualSave s) = [(1, ''a1'')]
       \<and> timers (manualSave s) = [\<lparr>handle = 2, due = 2100, act = SaveTimer 1 ''a1''\<rparr>]
       \<and> calls (manualSave (settle 0 True (manualSave s))) = [(1, ''a1'')]
       \<and> manualSave (s\<lparr>hasUnsavedChanges := False\<rparr>) = s\<lparr>hasUnsavedChanges := False\<rparr>)"
proof -
  let ?s = "\<lparr>note_prop = \<lparr>note_id = 1, subject_id = 7, title = ''A'', content_json = ''a0''\<rparr>,
              editor = Some ''a1'', isSaving = False, lastSaved = None,
              hasUnsavedChanges = True, saveTimeoutRef = Some 2, isLoadingNoteRef = False,
              now = 600, nextHandle = 3,
              timers = [\<lparr>handle = 2, due = 2100, act = SaveTimer 1 ''a1''\<rparr>],
              inflight = [], calls = []\<rparr>"
  have h: "hasUnsavedChanges ?s \<and> editor ?s = Some ''a1''" by simp
  have n: "\<not> hasUnsavedChanges (?s\<lparr>hasUnsavedChanges := False\<rparr>)" by simp
  from manualSave_behaviour [of "?s" "''a1''"] h
  have a: "manualSave ?s = ?s\<lparr>isSaving := True,
                         inflight := inflight ?s @ [(note_id (note_prop ?s), ''a1'')],
                         calls := calls ?s @ [(note_id (note_prop ?s), ''a1'')]\<rparr>"
    and b: "timers (manualSave ?s) = timers ?s"
    and c: "calls (manualSave (settle (length (inflight ?s)) True (manualSave ?s)))
              = calls ?s @ [(note_id (note_prop ?s), ''a1'')]"
    by blast+
  from manualSave_behaviour [of "?s\<lparr>hasUnsavedChanges := False\<rparr>" "''a1''"] n
  have d: "manualSave (?s\<lparr>hasUnsavedChanges := False\<rparr>) = ?s\<lparr>hasUnsavedChanges := False\<rparr>"
    by blast
  from a have a': "calls (manualSave ?s) = [(1, ''a1'')]" by simp
  from b have b': "timers (manualSave ?s) = [\<lparr>handle = 2, due = 2100, act = SaveTimer 1 ''a1''\<rparr>]"
    by simp
  from c have c': "calls (manualSave (settle 0 True (manualSave ?s))) = [(1, ''a1'')]" by simp
  show ?thesis unfolding Let_def using h a' b' c' d by blast
qed

text \<open>A note whose \<open>content_json\<close> is not JSON, with a parser that rejects it.\<close>

theorem unparsable_note_throws_witness:
  "mount (\<lambda>j. None) True \<lparr>note_id = 3, subject_id = 7, title = ''C'', content_json = ''not json''\<rparr>
     = Inl SyntaxError
   \<and> rerender (\<lambda>j. None) True \<lparr>note_id = 3, subject_id = 7, title = ''C'', content_json = ''not json''\<rparr>
        (initial \<lparr>note_id = 1, subject_id = 7, title = ''A'', content_json = ''a0''\<rparr>)
     = Inl SyntaxError"
proof -
  let ?C = "\<lparr>note_id = 3, subject_id = 7, title = ''C'', content_json = ''not json''\<rparr>"
  have a: "content_json ?C \<noteq> []" by simp
  have b: "(\<lambda>j. None) (content_json ?C) = (None :: string option)" by simp
  show ?thesis using unparsable_note_throws [of "?C" "\<lambda>j. None", OF a b] by blast
qed

text \<open>
  A session with unsaved changes, a last-saved time and a pending save timeout, switched to
  another note.
\<close>

theorem switch_resets_session_witness:
  "(let s = \<lparr>note_prop = \<lparr>note_id = 1, subject_id = 7, title = ''A'', content_json = ''a0''\<rparr>,
              editor = Some ''a2'', isSaving = False, lastSaved = Some 2100,
              hasUnsavedChanges = True, saveTimeoutRef = Some 3, isLoadingNoteRef = False,
              now = 2160, nextHandle = 4,
              timers = [\<lparr>handle = 3, due = 4150, act = SaveTimer 1 ''a2''\<rparr>],
              inflight = [], calls = [(1, ''a1'')]\<rparr>;
        n = \<lparr>note_id = 2, subject_id = 7, title = ''B'', content_json = ''b0''\<rparr>
    in hasUnsavedChanges s \<and> lastSaved s = Some 2100
       \<and> (\<exists>s'. rerender Some True n s = Inr s'
              \<and> \<not> hasUnsavedChanges s' \<and> lastSaved s' = None
              \<and> isLoadingNoteRef s' \<and> note_prop s' = n))"
proof -
  let ?s = "\<lparr>note_prop = \<lparr>note_id = 1, subject_id = 7, title = ''A'', content_json = ''a0''\<rparr>,
              editor = Some ''a2'', isSaving = False, lastSaved = Some 2100,
              hasUnsavedChanges = True, saveTimeoutRef = Some 3, isLoadingNoteRef = False,
              now = 2160, nextHandle = 4,
              timers = [\<lparr>handle = 3, due = 4150, act = SaveTimer 1 ''a2''\<rparr>],
              inflight = [], calls = [(1, ''a1'')]\<rparr>"
  let ?n = "\<lparr>note_id = 2, subject_id = 7, title = ''B'', content_json = ''b0''\<rparr>"
  have a: "note_id ?n \<noteq> note_id (note_prop ?s)" by simp
  have b: "render Some ?n = Inr ''b0''" by (simp add: render_def)
  have "\<exists>s'. rerender Some True ?n ?s = Inr s'
              \<and> \<not> hasUnsavedChanges s' \<and> lastSaved s' = None
              \<and> isLoadingNoteRef s' \<and> note_prop s' = ?n"
    using switch_resets_session [OF a b] .
  moreover have "hasUnsavedChanges ?s \<and> lastSaved ?s = Some 2100" by simp
  ultimately show ?thesis unfolding Let_def by blast
qed

text \<open>
  A note whose document is \<^verbatim>\<open>{"type":"doc"}\<close> is mounted, and then another note
  loaded, with no input: no persistence call within the guard window nor a minute later.
\<close>

theorem guard_suppresses_load_notification_witness:
  \<open>\<exists>s s'. mount Some True \<lparr>note_id = 1, subject_id = 7, title = ''A'', content_json = ''{"type":"doc"}''\<rparr>
              = Inr s
      \<and> isLoadingNoteRef s \<and> editorOnUpdate s = s
      \<and> calls (advance 99 s) = [] \<and> calls (advance 60000 s) = []
      \<and> saveTimers (advance 60000 s) = []
      \<and> rerender Some True \<lparr>note_id = 2, subject_id = 7, title = ''B'', content_json = ''b0''\<rparr> s = Inr s'
      \<and> saveTimers s' = [] \<and> calls (advance 60000 s') = []
      \<and> \<not> isLoadingNoteRef (advance 100 s')\<close>
proof -
  let ?A = \<open>\<lparr>note_id = 1, subject_id = 7, title = ''A'', content_json = ''{"type":"doc"}''\<rparr>\<close>
  let ?B = "\<lparr>note_id = 2, subject_id = 7, title = ''B'', content_json = ''b0''\<rparr>"
  let ?s = \<open>\<lparr>note_prop = ?A, editor = Some ''{"type":"doc"}'', isSaving = False, lastSaved = None,
        hasUnsavedChanges = False, saveTimeoutRef = None, isLoadingNoteRef = True,
        now = 0, nextHandle = 2, timers = [\<lparr>handle = 1, due = 100, act = GuardTimer\<rparr>],
        inflight = [], calls = []\<rparr>\<close>
  let ?t = "\<lparr>note_prop = ?B, editor = Some ''b0'', isSaving = False, lastSaved = None,
        hasUnsavedChanges = False, saveTimeoutRef = None, isLoadingNoteRef = True,
        now = 0, nextHandle = 3,
        timers = [\<lparr>handle = 1, due = 100, act = GuardTimer\<rparr>, \<lparr>handle = 2, due = 100, act = GuardTimer\<rparr>],
        inflight = [], calls = []\<rparr>"
  have m: "mount Some True ?A = Inr ?s" by (simp add: model_defs)
  have g: "isLoadingNoteRef ?s" by simp
  have r: "rerender Some True ?B ?s = Inr ?t" by (simp add: model_defs)
  have e: "saveTimers ?s = []" "calls ?s = []" by (simp_all add: saveTimers_def isSave_def)
  from guard_suppresses_load_notification [of "?s" Some True "?A" 99 "?t"] g m
  have a: "editorOnUpdate ?s = ?s" and b: "calls (advance 99 ?s) = []" by blast+
  from guard_suppresses_load_notification [of "?s" Some True "?A" 60000 "?t"] m
  have c: "calls (advance 60000 ?s) = []" and d: "saveTimers (advance 60000 ?s) = []"
    by blast+
  from guard_suppresses_load_notification [of "?s" Some True "?B" 60000 "?t"] r e
  have f: "saveTimers ?t = saveTimers ?s" and h: "calls (advance 60000 ?t) = calls ?s"
    by blast+
  have ne: "note_id ?B \<noteq> note_id (note_prop ?s)" by simp
  from guard_suppresses_load_notification [of "?s" Some True "?B" 60000 "?t"] r ne
  have k: "\<not> isLoadingNoteRef (advance 100 ?t)" by blast
  from f e have f': "saveTimers ?t = []" by simp
  from h e have h': "calls (advance 60000 ?t) = []" by simp
  show ?thesis using m g a b c d r f' h' k by blast
qed



text \<open>
  A content change typed 99 ms after a switch: the guard is still set, the change reaches the
  editor only, and no persistence call follows while nothing else is typed or saved.
\<close>

theorem guarded_edit_discarded_witness:
  "\<exists>s s'. mountAndRun Some True \<lparr>note_id = 1, subject_id = 7, title = ''A'', content_json = ''a0''\<rparr>
              [Advance 100] = Inr s
      \<and> rerender Some True \<lparr>note_id = 2, subject_id = 7, title = ''B'', content_json = ''b0''\<rparr> s = Inr s'
      \<and> isLoadingNoteRef (advance 99 s')
      \<and> userEdit ''typed'' (advance 99 s') = (advance 99 s')\<lparr>editor := Some ''typed''\<rparr>
      \<and> callsOf (run Some True [Advance 60000, Settle 0 True, Advance 60000] (userEdit ''typed'' (advance 99 s')))
           = Inr []"
proof -
  let ?A = "\<lparr>note_id = 1, subject_id = 7, title = ''A'', content_json = ''a0''\<rparr>"
  let ?B = "\<lparr>note_id = 2, subject_id = 7, title = ''B'', content_json = ''b0''\<rparr>"
  let ?s = "\<lparr>note_prop = ?A, editor = Some ''a0'', isSaving = False, lastSaved = None,
        hasUnsavedChanges = False, saveTimeoutRef = None, isLoadingNoteRef = False,
        now = 100, nextHandle = 2, timers = [], inflight = [], calls = []\<rparr>"
  let ?t = "\<lparr>note_prop = ?B, editor = Some ''b0'', isSaving = False, lastSaved = None,
        hasUnsavedChanges = False, saveTimeoutRef = None, isLoadingNoteRef = True,
        now = 100, nextHandle = 3, timers = [\<lparr>handle = 2, due = 200, act = GuardTimer\<rparr>],
        inflight = [], calls = []\<rparr>"
  let ?evs = "[Advance 60000, Settle 0 True, Advance 60000]"
  have m: "mountAndRun Some True ?A [Advance 100] = Inr ?s" by (simp add: model_defs)
  have r: "rerender Some True ?B ?s = Inr ?t" by (simp add: model_defs)
  have h3: "\<not> guardPending ?s \<and> note_id ?B \<noteq> note_id (note_prop ?s)
              \<and> rerender Some True ?B ?s = Inr ?t \<and> (99::nat) < 100"
    using r by (simp add: guardPending_def)
  from guarded_edit_discarded [of "?s" "''typed''" "[]" Some True "?B" "?t" 99] h3
  have g: "isLoadingNoteRef (advance 99 ?t)" by blast
  have ed: "editor (advance 99 ?t) \<noteq> None" by (simp add: advance_frame)
  have q: "\<forall>ev \<in> set ?evs. quiet ev" by simp
  from guarded_edit_discarded [of "advance 99 ?t" "''typed''" "?evs" Some True "?B" "?t" 99] g ed q
  have a: "userEdit ''typed'' (advance 99 ?t) = (advance 99 ?t)\<lparr>editor := Some ''typed''\<rparr>"
    and b: "callsOf (run Some True ?evs (userEdit ''typed'' (advance 99 ?t)))
              = callsOf (run Some True ?evs (advance 99 ?t))"
    by blast+
  have "callsOf (run Some True ?evs (advance 99 ?t)) = Inr []" by (simp add: model_defs)
  with b have b': "callsOf (run Some True ?evs (userEdit ''typed'' (advance 99 ?t))) = Inr []" by simp
  show ?thesis using m r g a b' by blast
qed

end
